theory Spec2Isabelle
  imports Main "HOL-Library.Sublist" "HOL-Library.Char_ord" "HOL-Library.List_Lexorder"
    "HOL-Library.Multiset"
begin

section \<open>The argument-parser tree read by \<open>shtab.py\<close>\<close>

text \<open>
  The walker reads an \<open>argparse\<close> parser through two accessors: the positional actions
  (each with \<open>dest\<close> and \<open>choices\<close>) and the optional actions (each with
  \<open>option_strings\<close>). The value of \<open>choices\<close> is \<open>None\<close>, a mapping from a
  subcommand name to its parser (what a subparsers action holds, in insertion order),
  a list of \<open>Choice\<close> markers (\<open>Optional.FILE\<close>, \<open>Required.DIR\<close>, ...) or a list of
  literal strings. A mapping is an association list; Python keeps its keys unique.
  Strings are lists of bytes; \<open>sorted\<close> compares them as Python does, character by
  character, a proper prefix first.
\<close>

datatype error = TypeError | KeyError | NotImplementedError

datatype choice = Choice (choice_type: string) (required: bool)

datatype 'p choices =
    ChoicesNone
  | ChoicesDict "(string \<times> 'p) list"
  | ChoicesMarkers "choice list"
  | ChoicesStrs "string list"

datatype 'p positional = Positional (dest: string) (choices: "'p choices")

datatype optional_action = OptionalAction (option_strings: "string list")

datatype parser =
  Parser (positional_actions: "parser positional list")
         (optional_actions: "optional_action list")

text \<open>A printed line: \<open>print(f"{prefix}='{opts}'")\<close> or \<open>print(f"{prefix}_COMPGEN=...")\<close>.
  An options line keeps the strings that \<open>" ".join\<close> puts between the quotes, and
  \<open>render\<close> below joins them. The sink \<open>fd\<close> of the walker is the sequence of lines
  printed to it so far.\<close>

datatype line =
    is_Options: Options (ident: string) (opts: "string list")
  | is_Compgen: Compgen (ident: string) (compgen: string)

type_synonym fd = "line list"

section \<open>Constants\<close>

definition GLOBAL_OPTIONS :: "string list" where
  "GLOBAL_OPTIONS = [''-h'', ''--help'', ''-q'', ''--quiet'', ''-v'', ''--verbose'']"

definition ROOT_PREFIX :: string where
  "ROOT_PREFIX = ''_dvc''"

definition UNCOMPLETABLE_POSITIONALS :: "string set" where
  "UNCOMPLETABLE_POSITIONALS =
     {''rev'', ''url'', ''args'', ''name'', ''option'', ''value'', ''command''}"

section \<open>The \<open>Choice\<close> marker\<close>

text \<open>\<open>Choice.__cmp__(self, other)\<close> looks only at the truth value of \<open>other\<close>;
  \<open>__eq__\<close> and \<open>__lt__\<close> compare its result with zero.\<close>

definition choice_cmp :: "choice \<Rightarrow> bool \<Rightarrow> int" where
  "choice_cmp self other = (if required self then (if other then 0 else - 1) else 0)"

definition choice_eq :: "choice \<Rightarrow> bool \<Rightarrow> bool" where
  "choice_eq self other = (choice_cmp self other = 0)"

definition choice_lt :: "choice \<Rightarrow> bool \<Rightarrow> bool" where
  "choice_lt self other = (choice_cmp self other < 0)"

text \<open>The lists of the classes \<open>Optional\<close> and \<open>Required\<close>.\<close>

definition Optional_FILE :: "choice list" where
  "Optional_FILE = [Choice ''file'' False]"

definition Optional_DIR :: "choice list" where
  "Optional_DIR = [Choice ''directory'' False]"

definition Required_FILE :: "choice list" where
  "Required_FILE = [Choice ''file'' True]"

definition Required_DIR :: "choice list" where
  "Required_DIR = [Choice ''directory'' True]"

section \<open>The options line (lines 29 to 38)\<close>

text \<open>An element met while iterating \<open>choices\<close>: a string (a mapping yields its keys) or
  a \<open>Choice\<close> object.\<close>

datatype item = Str string | Mark choice

fun truthy :: "'p choices \<Rightarrow> bool" where
  "truthy ChoicesNone = False"
| "truthy (ChoicesDict kvs) = (kvs \<noteq> [])"
| "truthy (ChoicesMarkers cs) = (cs \<noteq> [])"
| "truthy (ChoicesStrs ss) = (ss \<noteq> [])"

fun iterate :: "'p choices \<Rightarrow> item list" where
  "iterate ChoicesNone = []"
| "iterate (ChoicesDict kvs) = map (\<lambda>kv. Str (fst kv)) kvs"
| "iterate (ChoicesMarkers cs) = map Mark cs"
| "iterate (ChoicesStrs ss) = map Str ss"

text \<open>\<open>i in GLOBAL_OPTIONS\<close>: a string is compared with each entry; for a \<open>Choice\<close>
  object \<open>str.__eq__\<close> gives \<open>NotImplemented\<close> and Python falls back on
  \<open>Choice.__eq__(i, entry)\<close>, which sees the entry as the (truthy or falsy) \<open>other\<close>.\<close>

fun in_GLOBAL_OPTIONS :: "item \<Rightarrow> bool" where
  "in_GLOBAL_OPTIONS (Str s) = (s \<in> set GLOBAL_OPTIONS)"
| "in_GLOBAL_OPTIONS (Mark c) = (\<exists>g \<in> set GLOBAL_OPTIONS. choice_eq c (g \<noteq> []))"

text \<open>\<open>" ".join(opts)\<close> raises \<open>TypeError\<close> at an element that is not a string.\<close>

fun strs_of :: "item list \<Rightarrow> error + string list" where
  "strs_of [] = Inr []"
| "strs_of (Str s # is) = (case strs_of is of Inl e \<Rightarrow> Inl e | Inr ss \<Rightarrow> Inr (s # ss))"
| "strs_of (Mark c # is) = Inl TypeError"

fun join :: "string \<Rightarrow> string list \<Rightarrow> string" where
  "join sep [] = []"
| "join sep [s] = s"
| "join sep (s # t # ts) = s @ sep @ join sep (t # ts)"

definition all_opts :: "parser \<Rightarrow> item list" where
  "all_opts parser =
     concat (map (\<lambda>sub. iterate (choices sub))
               (filter (\<lambda>sub. truthy (choices sub)) (positional_actions parser)))
     @ map Str (concat (map option_strings (optional_actions parser)))"

definition visible_opts :: "parser \<Rightarrow> item list" where
  "visible_opts parser = filter (\<lambda>i. \<not> in_GLOBAL_OPTIONS i) (all_opts parser)"

definition print_opts :: "parser \<Rightarrow> string \<Rightarrow> fd \<Rightarrow> fd \<times> (error + unit)" where
  "print_opts parser prefix' fd =
     (case strs_of (visible_opts parser) of
        Inl e \<Rightarrow> (fd, Inl e)
      | Inr ss \<Rightarrow> (fd @ [Options prefix' ss], Inr ()))"

section \<open>The strategy line (lines 48 to 58)\<close>

text \<open>\<open>any(i in sub.dest for i in UNCOMPLETABLE_POSITIONALS)\<close> is a substring test. After
  the loop the source prints one of two lines, or none when \<open>dest\<close> is empty; the three
  outcomes carry the names the specification gives them.\<close>

definition uncompletable :: "string \<Rightarrow> bool" where
  "uncompletable d = (\<exists>i \<in> UNCOMPLETABLE_POSITIONALS. sublist i d)"

datatype strategy = NONE | GENERIC_PATH | PROJECT_FILE

definition classify :: "string list \<Rightarrow> strategy" where
  "classify dest' =
     (if dest' \<noteq> [] then
        (if {''targets'', ''target''} \<inter> set dest' = {} then GENERIC_PATH else PROJECT_FILE)
      else NONE)"

fun print_strategy :: "string \<Rightarrow> strategy \<Rightarrow> fd \<Rightarrow> fd" where
  "print_strategy prefix' NONE fd = fd"
| "print_strategy prefix' GENERIC_PATH fd = fd @ [Compgen prefix' ''_dvc_compgen_files'']"
| "print_strategy prefix' PROJECT_FILE fd = fd @ [Compgen prefix' ''_dvc_compgen_DVCFiles'']"

section \<open>The recursive traversal \<open>print_bash_commands\<close>\<close>

definition replace_hyphen :: "string \<Rightarrow> string" where
  "replace_hyphen cmd = map (\<lambda>c. if c = CHR ''-'' then CHR ''_'' else c) cmd"

definition child_prefix :: "string \<Rightarrow> string \<Rightarrow> string" where
  "child_prefix prefix' cmd = prefix' @ ''_'' @ replace_hyphen cmd"

lemma size_map_of:
  "map_of kvs k = Some (p :: parser) \<Longrightarrow>
     size p < Suc (size_list (size_prod (\<lambda>_. 0) size) kvs)"
  by (induction kvs) (auto split: if_splits)

lemma size_choices_dict:
  "choices sub = ChoicesDict kvs \<Longrightarrow>
     Suc (size_list (size_prod (\<lambda>_. 0) size) kvs) < size_positional size (sub :: parser positional)"
  by (cases sub) simp

lemma size_positional_actions:
  "size_list (size_positional size) (positional_actions p) < size p"
  by (cases p) simp

text \<open>
  \<open>print_bash_commands\<close> is the function of the source; \<open>for_sub\<close> is its loop over the
  positionals, carrying \<open>commands\<close> and \<open>dest\<close>; \<open>for_cmd\<close> is the inner loop over
  \<open>sorted(sub.choices)\<close>, which looks each \<open>cmd\<close> up in the mapping again. An exception
  ends the traversal with what was printed before it. Indexing a list with a string or
  with a \<open>Choice\<close> object (\<open>sub.choices[cmd]\<close>) raises \<open>TypeError\<close>.
\<close>

function print_bash_commands :: "parser \<Rightarrow> string \<Rightarrow> fd \<Rightarrow> fd \<times> (error + string list)"
  and for_sub :: "parser positional list \<Rightarrow> string \<Rightarrow> string list \<Rightarrow> string list \<Rightarrow> fd
                  \<Rightarrow> fd \<times> (error + string list \<times> string list)"
  and for_cmd :: "(string \<times> parser) list \<Rightarrow> string list \<Rightarrow> string \<Rightarrow> string list \<Rightarrow> fd
                  \<Rightarrow> fd \<times> (error + string list)"
where
  "print_bash_commands parser prefix' fd =
     (case (if prefix' = ROOT_PREFIX then (fd, Inr ()) else print_opts parser prefix' fd) of
        (fd1, Inl e) \<Rightarrow> (fd1, Inl e)
      | (fd1, Inr _) \<Rightarrow>
          (case for_sub (positional_actions parser) prefix' [] [] fd1 of
             (fd2, Inl e) \<Rightarrow> (fd2, Inl e)
           | (fd2, Inr (commands, dest')) \<Rightarrow>
               (print_strategy prefix' (classify dest') fd2, Inr commands)))"
| "for_sub [] prefix' commands dest' fd = (fd, Inr (commands, dest'))"
| "for_sub (sub # subs) prefix' commands dest' fd =
     (if truthy (choices sub) then
        (case choices sub of
           ChoicesDict kvs \<Rightarrow>
             (case for_cmd kvs (sort (map fst kvs)) prefix' commands fd of
                (fd1, Inl e) \<Rightarrow> (fd1, Inl e)
              | (fd1, Inr commands1) \<Rightarrow> for_sub subs prefix' commands1 dest' fd1)
         | ChoicesMarkers cs \<Rightarrow> (fd, Inl TypeError)
         | ChoicesStrs ss \<Rightarrow> (fd, Inl TypeError)
         | ChoicesNone \<Rightarrow> for_sub subs prefix' commands dest' fd)
      else if \<not> uncompletable (dest sub) then
        for_sub subs prefix' commands (dest' @ [dest sub]) fd
      else for_sub subs prefix' commands dest' fd)"
| "for_cmd kvs [] prefix' commands fd = (fd, Inr commands)"
| "for_cmd kvs (cmd # cmds) prefix' commands fd =
     (case map_of kvs cmd of
        None \<Rightarrow> (fd, Inl KeyError)
      | Some child \<Rightarrow>
          (case print_bash_commands child (child_prefix prefix' cmd) fd of
             (fd1, Inl e) \<Rightarrow> (fd1, Inl e)
           | (fd1, Inr _) \<Rightarrow> for_cmd kvs cmds prefix' (commands @ [cmd]) fd1))"
  by pat_completeness auto

termination
  apply (relation "measures [
     (\<lambda>x. case x of Inl (p, _) \<Rightarrow> size p
        | Inr (Inl (subs, _)) \<Rightarrow> size_list (size_positional size) subs
        | Inr (Inr (kvs, _)) \<Rightarrow> Suc (size_list (size_prod (\<lambda>_. 0) size) kvs)),
     (\<lambda>x. case x of Inl (p, _) \<Rightarrow> 0
        | Inr (Inl (subs, _)) \<Rightarrow> 0
        | Inr (Inr (kvs, cmds, _)) \<Rightarrow> Suc (length cmds))]")
         apply (simp_all add: size_map_of size_positional_actions)
  apply (drule size_choices_dict, simp)
  done

section \<open>The script: \<open>print_bash\<close> and \<open>complete\<close>\<close>

text \<open>The fixed text around the generated definitions, as the string literals of
  \<open>print_bash\<close> evaluate (a backslash at the end of a source line joins it with the next).\<close>

definition SCRIPT_HEADER :: string where
  \<open>SCRIPT_HEADER =
     ''#!/usr/bin/env bash\<newline>'' @
     ''# AUTOMATCALLY GENERATED from `dvc completion`\<newline>'' @
     ''# References:\<newline>'' @
     ''#   - https://www.gnu.org/software/bash/manual/html_node/Programmable-Completion.html\<newline>'' @
     ''#   - https://opensource.com/article/18/3/creating-bash-completion-script\<newline>'' @
     ''#   - https://stackoverflow.com/questions/12933362\<newline>'' @
     ''\<newline>'' @
     ''_dvc_commands='' @ [CHR 0x27]\<close>

definition SCRIPT_OPTIONS :: string where
  \<open>SCRIPT_OPTIONS =
     [CHR 0x27] @ ''\<newline>'' @
     ''\<newline>'' @
     ''_dvc_options='-h --help -V --version'\<newline>'' @
     ''_dvc_global_options='' @ [CHR 0x27]\<close>

definition SCRIPT_DEFINITIONS :: string where
  \<open>SCRIPT_DEFINITIONS =
     [CHR 0x27] @ ''\<newline>'' @
     ''\<newline>''\<close>

definition SCRIPT_FUNCTIONS :: string where
  \<open>SCRIPT_FUNCTIONS =
     ''\<newline>'' @
     ''# $1=COMP_WORDS[1]\<newline>'' @
     ''_dvc_compgen_DVCFiles() {\<newline>'' @
     ''  compgen -f -X '!*?.dvc' -- $1\<newline>'' @
     ''  compgen -d -S '/' -- $1  # recurse into subdirs\<newline>'' @
     ''  # Note that the recurse into dirs is only for looking for DVC-files.\<newline>'' @
     ''  # Since dirs themselves are not required, we need `-o nospace` at the bottom\<newline>'' @
     ''  # unfortunately :(\<newline>'' @
     ''}\<newline>'' @
     ''\<newline>'' @
     ''# $1=COMP_WORDS[1]\<newline>'' @
     ''_dvc_compgen_files() {\<newline>'' @
     ''  compgen -f -- $1\<newline>'' @
     ''  compgen -d -S '/' -- $1  # recurse into subdirs\<newline>'' @
     ''}\<newline>'' @
     ''\<newline>'' @
     ''# $1=COMP_WORDS[1]\<newline>'' @
     ''_dvc_replace_hyphen() {\<newline>'' @
     ''  echo $1 | sed 's/-/_/g'\<newline>'' @
     ''}\<newline>'' @
     ''\<newline>'' @
     ''# $1=COMP_WORDS[1]\<newline>'' @
     ''_dvc_compgen_command() {\<newline>'' @
     ''  local flags_list="_dvc_$(_dvc_replace_hyphen $1)"\<newline>'' @
     ''  local args_gen="${flags_list}_COMPGEN"\<newline>'' @
     ''  COMPREPLY=( $(compgen -W "$_dvc_global_options ${!flags_list}" -- "$word"; [ -n "${!args_gen}" ] && ${!args_gen} "$word") )\<newline>'' @
     ''}\<newline>'' @
     ''\<newline>'' @
     ''# $1=COMP_WORDS[1]\<newline>'' @
     ''# $2=COMP_WORDS[2]\<newline>'' @
     ''_dvc_compgen_subcommand() {\<newline>'' @
     ''  local flags_list="_dvc_$(_dvc_replace_hyphen $1)_$(_dvc_replace_hyphen $2)"\<newline>'' @
     ''  local args_gen="${flags_list}_COMPGEN"\<newline>'' @
     ''  [ -n "${!args_gen}" ] && local opts_more="$(${!args_gen} "$word")"\<newline>'' @
     ''  local opts="${!flags_list}"\<newline>'' @
     ''  if [ -z "$opts$opts_more" ]; then\<newline>'' @
     ''    _dvc_compgen_command $1\<newline>'' @
     ''  else\<newline>'' @
     ''    COMPREPLY=( $(compgen -W "$_dvc_global_options $opts" -- "$word"; [ -n "$opts_more" ] && echo "$opts_more") )\<newline>'' @
     ''  fi\<newline>'' @
     ''}\<newline>'' @
     ''\<newline>'' @
     ''# Notes:\<newline>'' @
     ''# `COMPREPLY` contains what will be rendered after completion is triggered\<newline>'' @
     ''# `word` refers to the current typed word\<newline>'' @
     ''# `${!var}` is to evaluate the content of `var`\<newline>'' @
     ''# and expand its content as a variable\<newline>'' @
     ''#       hello="world"\<newline>'' @
     ''#       x="hello"\<newline>'' @
     ''#       ${!x} ->  ${hello} ->  "world"\<newline>'' @
     ''_dvc() {\<newline>'' @
     ''  local word="${COMP_WORDS[COMP_CWORD]}"\<newline>'' @
     ''\<newline>'' @
     ''  COMPREPLY=()\<newline>'' @
     ''\<newline>'' @
     ''  if [ "${COMP_CWORD}" -eq 1 ]; then\<newline>'' @
     ''    case "$word" in\<newline>'' @
     ''      -*) COMPREPLY=($(compgen -W "$_dvc_options" -- "$word")) ;;\<newline>'' @
     ''      *) COMPREPLY=($(compgen -W "$_dvc_commands" -- "$word")) ;;\<newline>'' @
     ''    esac\<newline>'' @
     ''  elif [ "${COMP_CWORD}" -eq 2 ]; then\<newline>'' @
     ''    _dvc_compgen_command ${COMP_WORDS[1]}\<newline>'' @
     ''  elif [ "${COMP_CWORD}" -ge 3 ]; then\<newline>'' @
     ''    _dvc_compgen_subcommand ${COMP_WORDS[1]} ${COMP_WORDS[2]}\<newline>'' @
     ''  fi\<newline>'' @
     ''\<newline>'' @
     ''  return 0\<newline>'' @
     ''}\<newline>'' @
     ''\<newline>'' @
     ''complete -o nospace -F _dvc dvc''\<close>

text \<open>\<open>bash.getvalue()\<close>: every \<open>print\<close> wrote its line and a newline.\<close>

fun render :: "line \<Rightarrow> string" where
  "render (Options prefix' opts') = prefix' @ ''='' @ [CHR 0x27] @ join '' '' opts' @ [CHR 0x27]"
| "render (Compgen prefix' f) = prefix' @ ''_COMPGEN='' @ f"

definition getvalue :: "fd \<Rightarrow> string" where
  "getvalue fd = concat (map (\<lambda>l. render l @ ''\<newline>'') fd)"

text \<open>\<open>print_bash\<close> walks the parser into a buffer of its own and then prints the whole
  script to its sink in one call; the sink is the text written so far.\<close>

definition print_bash :: "parser \<Rightarrow> string \<Rightarrow> string \<times> (error + unit)" where
  "print_bash parser fd =
     (case print_bash_commands parser ROOT_PREFIX [] of
        (bash, Inl e) \<Rightarrow> (fd, Inl e)
      | (bash, Inr commands) \<Rightarrow>
          (fd @ SCRIPT_HEADER @ join '' '' commands @ SCRIPT_OPTIONS
              @ join '' '' GLOBAL_OPTIONS @ SCRIPT_DEFINITIONS @ getvalue bash
              @ SCRIPT_FUNCTIONS @ ''\<newline>'', Inr ()))"

text \<open>\<open>complete\<close> returns the text of its sink \<open>output\<close>, or raises; the first component
  is what \<open>output\<close> holds when the call ends either way.\<close>

definition complete :: "parser \<Rightarrow> string \<Rightarrow> string \<times> (error + string)" where
  "complete parser shell =
     (let output = [] in
      if shell = ''bash'' then
        (case print_bash parser output of
           (output1, Inl e) \<Rightarrow> (output1, Inl e)
         | (output1, Inr _) \<Rightarrow> (output1, Inr output1))
      else (output, Inl NotImplementedError))"

section \<open>Views of a parser used to state the properties\<close>

text \<open>The children the inner loop visits for one positional, in the order it visits them,
  and those of a parser, positional after positional.\<close>

definition children_of :: "parser positional \<Rightarrow> (string \<times> parser) list" where
  "children_of sub =
     (case choices sub of
        ChoicesDict kvs \<Rightarrow>
          concat (map (\<lambda>cmd. case map_of kvs cmd of Some child \<Rightarrow> [(cmd, child)] | None \<Rightarrow> [])
                      (sort (map fst kvs)))
      | _ \<Rightarrow> [])"

definition children :: "parser \<Rightarrow> (string \<times> parser) list" where
  "children p = concat (map children_of (positional_actions p))"

text \<open>The names the loop appends to \<open>dest\<close>: those of the positionals whose \<open>choices\<close> is
  falsy and whose name holds no entry of the denylist.\<close>

definition completable_dests :: "parser \<Rightarrow> string list" where
  "completable_dests p =
     map dest (filter (\<lambda>sub. \<not> truthy (choices sub) \<and> \<not> uncompletable (dest sub))
                      (positional_actions p))"

fun strs :: "item list \<Rightarrow> string list" where
  "strs [] = []"
| "strs (Str s # is) = s # strs is"
| "strs (Mark c # is) = strs is"

text \<open>A node dispatches when each of its positionals with a truthy \<open>choices\<close> holds a
  mapping. \<open>all_nodes P p\<close>: \<open>P\<close> holds at \<open>p\<close> and at every node the walker reaches from it.
  A command tree is a parser all of whose nodes dispatch.\<close>

definition dispatches :: "parser \<Rightarrow> bool" where
  "dispatches p =
     (\<forall>sub \<in> set (positional_actions p).
        case choices sub of ChoicesMarkers cs \<Rightarrow> cs = [] | ChoicesStrs ss \<Rightarrow> ss = [] | _ \<Rightarrow> True)"

lemma children_of_size:
  "(k, c) \<in> set (children_of sub) \<Longrightarrow> size c < size_positional size sub"
  by (cases sub)
     (auto simp: children_of_def less_Suc_eq split: choices.splits option.splits
           dest: size_map_of[OF sym])

lemma children_size: "(k, c) \<in> set (children p) \<Longrightarrow> size c < size p"
proof -
  assume "(k, c) \<in> set (children p)"
  then obtain sub where s: "sub \<in> set (positional_actions p)"
    and kc: "(k, c) \<in> set (children_of sub)"
    by (auto simp: children_def)
  from s have "size_positional size sub
      \<le> size_list (size_positional size) (positional_actions p)"
    by (induction "positional_actions p" arbitrary: p) (auto simp: size_list_estimation')
  with children_of_size[OF kc] size_positional_actions[of p] show ?thesis by simp
qed

function all_nodes :: "(parser \<Rightarrow> bool) \<Rightarrow> parser \<Rightarrow> bool" where
  "all_nodes P (Parser subs optionals) =
     (P (Parser subs optionals)
      \<and> (\<forall>kc \<in> set (children (Parser subs optionals)). all_nodes P (snd kc)))"
  by pat_completeness auto
termination
  by (relation "measure (\<lambda>(P, p). size p)") (auto dest: children_size)

definition command_tree :: "parser \<Rightarrow> bool" where
  "command_tree p = all_nodes dispatches p"

text \<open>What a traversal started on the empty sink prints, and whether it returns.\<close>

definition out :: "parser \<Rightarrow> string \<Rightarrow> fd" where
  "out p prefix' = fst (print_bash_commands p prefix' [])"

definition succeeds :: "parser \<Rightarrow> string \<Rightarrow> bool" where
  "succeeds p prefix' = (\<exists>cs. snd (print_bash_commands p prefix' []) = Inr cs)"

definition sub_ok :: "string \<Rightarrow> parser positional \<Rightarrow> bool" where
  "sub_ok prefix' sub =
     ((case choices sub of ChoicesMarkers cs \<Rightarrow> cs = [] | ChoicesStrs ss \<Rightarrow> ss = [] | _ \<Rightarrow> True)
      \<and> (\<forall>kc \<in> set (children_of sub). succeeds (snd kc) (child_prefix prefix' (fst kc))))"



text \<open>An identifier extends a prefix when it is the prefix, or the prefix followed by an
  underscore and more. The tag of an identifier below a prefix is what follows the prefix
  and one underscore, up to the next underscore.\<close>

definition extends :: "string \<Rightarrow> string \<Rightarrow> bool" where
  "extends prefix' i = (\<exists>t. i = prefix' @ t \<and> (t = [] \<or> hd t = CHR ''_''))"


text \<open>
  Two parsers differ only in the insertion order of the entries of their mappings
  (\<open>reordered\<close>) when they have the same optional actions and, positional by positional, the
  same \<open>dest\<close> and either the same \<open>choices\<close> or two mappings with the same keys, no key
  twice, whose children under each key are reordered in turn. Two lines are the same up to
  the order of the words when they assign the same identifier and, for an options line,
  hold the same strings with the same multiplicities.
\<close>

definition same_keys :: "(string \<times> parser) list \<Rightarrow> (string \<times> parser) list \<Rightarrow> bool" where
  "same_keys kvs kvs' =
     (distinct (map fst kvs) \<and> distinct (map fst kvs') \<and> set (map fst kvs) = set (map fst kvs'))"

function reordered :: "parser \<Rightarrow> parser \<Rightarrow> bool" where
  "reordered (Parser subs optionals) q =
     (optionals = optional_actions q
      \<and> list_all2
          (\<lambda>s t. dest s = dest t
             \<and> (case choices s of
                  ChoicesDict kvs \<Rightarrow>
                    (case choices t of
                       ChoicesDict kvs' \<Rightarrow>
                         same_keys kvs kvs'
                         \<and> (\<forall>k \<in> set (map fst kvs).
                               case map_of kvs k of
                                 Some c \<Rightarrow>
                                   (case map_of kvs' k of
                                      Some c' \<Rightarrow> reordered c c'
                                    | None \<Rightarrow> False)
                               | None \<Rightarrow> False)
                     | _ \<Rightarrow> False)
                | a \<Rightarrow> choices t = a))
          subs (positional_actions q))"
  by pat_completeness auto
termination
  apply (relation "measure (\<lambda>(p, q). size p)")
   apply simp
  subgoal for subs optionals q s t kvs kvs' k c c'
    apply (drule size_map_of)
    apply (drule size_choices_dict)
    apply (subgoal_tac "size_positional size s \<le> size_list (size_positional size) subs")
     apply simp
    apply (simp add: size_list_estimation')
    done
  done

definition reordered_pos :: "parser positional \<Rightarrow> parser positional \<Rightarrow> bool" where
  "reordered_pos s t =
     (dest s = dest t
      \<and> (case choices s of
           ChoicesDict kvs \<Rightarrow>
             (case choices t of
                ChoicesDict kvs' \<Rightarrow>
                  same_keys kvs kvs'
                  \<and> (\<forall>k \<in> set (map fst kvs).
                        case map_of kvs k of
                          Some c \<Rightarrow>
                            (case map_of kvs' k of
                               Some c' \<Rightarrow> reordered c c'
                             | None \<Rightarrow> False)
                        | None \<Rightarrow> False)
              | _ \<Rightarrow> False)
         | a \<Rightarrow> choices t = a))"

fun same_line :: "line \<Rightarrow> line \<Rightarrow> bool" where
  "same_line (Options i ss) (Options j ts) = (i = j \<and> mset ss = mset ts)"
| "same_line (Compgen i f) (Compgen j g) = (i = j \<and> f = g)"
| "same_line _ _ = False"

subsection \<open>Example parsers\<close>

text \<open>Scenario A of the specification: a root with the one subcommand \<open>add\<close>.\<close>

definition scenario_A :: parser where
  "scenario_A =
     Parser [Positional ''cmd''
               (ChoicesDict [(''add'', Parser [Positional ''target'' ChoicesNone]
                                              [OptionalAction [''-f'', ''--force'']])])]
            []"

text \<open>A node with three plain positionals; a node whose only positional is \<open>url\<close>; a node
  with global and other options; a parser with one positional declared with
  \<open>choices=Optional.FILE\<close>.\<close>

definition targets_node :: parser where
  "targets_node =
     Parser [Positional ''url'' ChoicesNone, Positional ''targets'' ChoicesNone,
             Positional ''file'' ChoicesNone] []"

definition url_node :: parser where
  "url_node = Parser [Positional ''url'' ChoicesNone] [OptionalAction [''-o'', ''--out'']]"

definition help_node :: parser where
  "help_node =
     Parser [] [OptionalAction [''-h'', ''--help''], OptionalAction [''-f'', ''--force''],
                OptionalAction [''-v'', ''--verbose'']]"

definition file_argument :: parser where
  "file_argument = Parser [Positional ''path'' (ChoicesMarkers Optional_FILE)] []"



text \<open>A root with \<open>remote\<close> (itself with \<open>add\<close> and \<open>remove\<close>) and \<open>add\<close>, and the same
  tree with the entries of both mappings in another order.\<close>

definition remote_tree :: parser where
  "remote_tree =
     Parser [Positional ''cmd''
       (ChoicesDict
          [(''remote'', Parser [Positional ''cmd''
                          (ChoicesDict [(''add'', Parser [Positional ''url'' ChoicesNone] []),
                                        (''remove'', Parser [Positional ''name'' ChoicesNone] [])])]
                        []),
           (''add'', Parser [Positional ''targets'' ChoicesNone] [OptionalAction [''-f'', ''--force'']])])]
       []"

definition remote_tree_reordered :: parser where
  "remote_tree_reordered =
     Parser [Positional ''cmd''
       (ChoicesDict
          [(''add'', Parser [Positional ''targets'' ChoicesNone] [OptionalAction [''-f'', ''--force'']]),
           (''remote'', Parser [Positional ''cmd''
                          (ChoicesDict [(''remove'', Parser [Positional ''name'' ChoicesNone] []),
                                        (''add'', Parser [Positional ''url'' ChoicesNone] [])])]
                        [])])]
       []"

section \<open>The traversal does not read its sink\<close>

declare print_bash_commands.simps [simp del]

lemma print_opts_frame:
  "print_opts p pre (fd0 @ fd) = (fd0 @ fst (print_opts p pre fd), snd (print_opts p pre fd))"
  by (simp add: print_opts_def split: sum.splits)

lemma print_strategy_frame:
  "print_strategy pre s (fd0 @ fd) = fd0 @ print_strategy pre s fd"
  by (cases s) simp_all

lemma frame_all:
  "(\<forall>fd0. print_bash_commands p pre (fd0 @ fd) =
      (fd0 @ fst (print_bash_commands p pre fd), snd (print_bash_commands p pre fd)))"
  "(\<forall>fd0. for_sub subs pre1 commands1 dest1 (fd0 @ fd1) =
      (fd0 @ fst (for_sub subs pre1 commands1 dest1 fd1), snd (for_sub subs pre1 commands1 dest1 fd1)))"
  "(\<forall>fd0. for_cmd kvs cmds pre2 commands2 (fd0 @ fd2) =
      (fd0 @ fst (for_cmd kvs cmds pre2 commands2 fd2), snd (for_cmd kvs cmds pre2 commands2 fd2)))"
proof (induct p pre fd and subs pre1 commands1 dest1 fd1 and kvs cmds pre2 commands2 fd2
        rule: print_bash_commands_for_sub_for_cmd.induct)
  case (1 parser prefix' fd)
  show ?case
  proof
    fix fd0
    show "print_bash_commands parser prefix' (fd0 @ fd) =
      (fd0 @ fst (print_bash_commands parser prefix' fd), snd (print_bash_commands parser prefix' fd))"
    proof (cases "prefix' = ROOT_PREFIX")
      case True
      with 1[of fd "Inr ()" "()"] show ?thesis
        by (simp add: print_bash_commands.simps[of parser] print_strategy_frame split: prod.splits sum.splits)
    next
      case False
      show ?thesis
      proof (cases "print_opts parser prefix' fd")
        case (Pair x y)
        with False 1[of x y] print_opts_frame[of parser prefix' fd0 fd] show ?thesis
          by (auto simp add: print_bash_commands.simps[of parser] print_strategy_frame split: prod.splits sum.splits)
      qed
    qed
  qed
next
  case (2 prefix' commands dest' fd)
  then show ?case by simp
next
  case (3 sub subs prefix' commands dest' fd)
  show ?case
  proof (cases "choices sub")
    case ChoicesNone
    with 3 show ?thesis by simp
  next
    case (ChoicesDict x2)
    show ?thesis
    proof (cases "for_cmd x2 (sort (map fst x2)) prefix' commands fd")
      case (Pair x y)
      with ChoicesDict 3(2)[of x2] 3(3)[of x2 x y] 3(4) 3(5) show ?thesis
        by (auto split: prod.splits sum.splits)
    qed
  next
    case (ChoicesMarkers x3)
    with 3 show ?thesis by simp
  next
    case (ChoicesStrs x4)
    with 3 show ?thesis by simp
  qed
next
  case (4 kvs prefix' commands fd)
  then show ?case by simp
next
  case (5 kvs cmd cmds prefix' commands fd)
  show ?case
  proof (cases "map_of kvs cmd")
    case None
    then show ?thesis by simp
  next
    case (Some child)
    show ?thesis
    proof (cases "print_bash_commands child (child_prefix prefix' cmd) fd")
      case (Pair x y)
      with Some 5(1)[of child] 5(2)[of child x y] show ?thesis
        by (auto split: prod.splits sum.splits)
    qed
  qed
qed

lemmas frame = frame_all(1)[rule_format]

lemma frame_nil:
  "print_bash_commands p pre fd =
     (fd @ fst (print_bash_commands p pre []), snd (print_bash_commands p pre []))"
  using frame[of p pre fd "[]"] by simp

section \<open>The traversal of a command tree\<close>

lemma in_GLOBAL_OPTIONS_Mark: "in_GLOBAL_OPTIONS (Mark c)"
  by (simp add: GLOBAL_OPTIONS_def choice_eq_def choice_cmp_def)

lemma strs_of_no_Mark: "(\<forall>c. Mark c \<notin> set is) \<Longrightarrow> strs_of is = Inr (strs is)"
  by (induction "is" rule: strs.induct) auto

lemma strs_of_visible_opts: "strs_of (visible_opts p) = Inr (strs (visible_opts p))"
  using in_GLOBAL_OPTIONS_Mark
  by (intro strs_of_no_Mark) (auto simp: visible_opts_def simp del: in_GLOBAL_OPTIONS.simps)

lemma print_opts_eq:
  "print_opts p pre fd = (fd @ [Options pre (strs (visible_opts p))], Inr ())"
  by (simp add: print_opts_def strs_of_visible_opts)

lemma for_cmd_char:
  assumes "\<forall>cmd \<in> set cmds. \<exists>c. map_of kvs cmd = Some c \<and> succeeds c (child_prefix pre cmd)"
  shows "for_cmd kvs cmds pre commands fd =
     (fd @ concat (map (\<lambda>cmd. out (the (map_of kvs cmd)) (child_prefix pre cmd)) cmds),
      Inr (commands @ cmds))"
  using assms
proof (induction cmds arbitrary: commands fd)
  case Nil
  then show ?case by simp
next
  case (Cons cmd cmds)
  from Cons.prems obtain c cs where c: "map_of kvs cmd = Some c"
    and cs: "snd (print_bash_commands c (child_prefix pre cmd) []) = Inr cs"
    by (auto simp: succeeds_def)
  have "print_bash_commands c (child_prefix pre cmd) fd = (fd @ out c (child_prefix pre cmd), Inr cs)"
    using frame_nil[of c "child_prefix pre cmd" fd] cs by (simp add: out_def)
  with c Cons show ?case by simp
qed

lemma children_of_dict:
  "choices sub = ChoicesDict kvs \<Longrightarrow>
     children_of sub = map (\<lambda>cmd. (cmd, the (map_of kvs cmd))) (sort (map fst kvs))"
proof -
  have "\<And>ks. set ks \<subseteq> fst ` set kvs \<Longrightarrow>
     concat (map (\<lambda>cmd. case map_of kvs cmd of Some child \<Rightarrow> [(cmd, child)] | None \<Rightarrow> []) ks)
       = map (\<lambda>cmd. (cmd, the (map_of kvs cmd))) ks"
    subgoal for ks
      by (induction ks) (auto split: option.splits simp: map_of_eq_None_iff)
    done
  moreover assume "choices sub = ChoicesDict kvs"
  ultimately show ?thesis by (simp add: children_of_def)
qed

lemma children_of_not_dict:
  "(\<And>kvs. choices sub \<noteq> ChoicesDict kvs) \<Longrightarrow> children_of sub = []"
  by (auto simp: children_of_def split: choices.splits)

lemma for_sub_char:
  assumes "\<forall>sub \<in> set subs. sub_ok pre sub"
  shows "for_sub subs pre commands dest' fd =
     (fd @ concat (map (\<lambda>kc. out (snd kc) (child_prefix pre (fst kc))) (concat (map children_of subs))),
      Inr (commands @ map fst (concat (map children_of subs)),
           dest' @ map dest (filter (\<lambda>sub. \<not> truthy (choices sub) \<and> \<not> uncompletable (dest sub)) subs)))"
  using assms
proof (induction subs arbitrary: commands dest' fd)
  case Nil
  then show ?case by simp
next
  case (Cons sub subs)
  then have ok: "sub_ok pre sub" and IH: "\<And>commands dest' fd. for_sub subs pre commands dest' fd =
     (fd @ concat (map (\<lambda>kc. out (snd kc) (child_prefix pre (fst kc))) (concat (map children_of subs))),
      Inr (commands @ map fst (concat (map children_of subs)),
           dest' @ map dest (filter (\<lambda>sub. \<not> truthy (choices sub) \<and> \<not> uncompletable (dest sub)) subs)))"
    by auto
  show ?case
  proof (cases "choices sub")
    case ChoicesNone
    then show ?thesis by (simp add: IH children_of_not_dict)
  next
    case (ChoicesDict kvs)
    have "\<forall>cmd \<in> set (sort (map fst kvs)). \<exists>c. map_of kvs cmd = Some c \<and> succeeds c (child_prefix pre cmd)"
    proof
      fix cmd assume "cmd \<in> set (sort (map fst kvs))"
      then have "cmd \<in> fst ` set kvs" by simp
      then obtain c where c: "map_of kvs cmd = Some c"
        by (metis map_of_eq_None_iff not_Some_eq)
      moreover from \<open>cmd \<in> set (sort (map fst kvs))\<close> ok c
      have "succeeds c (child_prefix pre cmd)"
        by (force simp: sub_ok_def children_of_dict[OF ChoicesDict])
      ultimately show "\<exists>c. map_of kvs cmd = Some c \<and> succeeds c (child_prefix pre cmd)" by blast
    qed
    from for_cmd_char[OF this] ChoicesDict show ?thesis
      by (cases "kvs = []") (simp_all add: IH children_of_dict[OF ChoicesDict] comp_def)
  next
    case (ChoicesMarkers cs)
    with ok show ?thesis by (simp add: IH sub_ok_def children_of_not_dict)
  next
    case (ChoicesStrs ss)
    with ok show ?thesis by (simp add: IH sub_ok_def children_of_not_dict)
  qed
qed

lemma pbc_char:
  assumes "\<forall>sub \<in> set (positional_actions p). sub_ok pre sub"
  shows "print_bash_commands p pre fd =
     (fd @ (if pre = ROOT_PREFIX then [] else [Options pre (strs (visible_opts p))])
         @ concat (map (\<lambda>kc. out (snd kc) (child_prefix pre (fst kc))) (children p))
         @ print_strategy pre (classify (completable_dests p)) [],
      Inr (map fst (children p)))"
proof -
  have ps: "print_strategy pre s fd2 = fd2 @ print_strategy pre s []" for s fd2
    by (cases s) simp_all
  show ?thesis
    unfolding print_bash_commands.simps[of p] for_sub_char[OF assms] print_opts_eq
      children_def completable_dests_def
    by (simp add: ps[of _ "_ @ _"])
qed

lemma all_nodes_succeeds: "all_nodes P p \<Longrightarrow> P = dispatches \<Longrightarrow> succeeds p pre"
proof (induction P p arbitrary: pre rule: all_nodes.induct)
  case (1 P subs optionals pre)
  let ?p = "Parser subs optionals"
  have "sub_ok pre sub" if sub: "sub \<in> set subs" for sub
  proof -
    have a: "case choices sub of ChoicesMarkers cs \<Rightarrow> cs = [] | ChoicesStrs ss \<Rightarrow> ss = [] | _ \<Rightarrow> True"
      using 1(2,3) sub by (simp add: dispatches_def)
    have b: "succeeds (snd kc) (child_prefix pre (fst kc))" if "kc \<in> set (children_of sub)" for kc
    proof -
      from that sub have kc: "kc \<in> set (children ?p)" by (auto simp: children_def)
      with 1(2) have "all_nodes P (snd kc)" by simp
      with 1(1)[OF kc] 1(3) show ?thesis by blast
    qed
    from a b show ?thesis unfolding sub_ok_def by blast
  qed
  then have "\<forall>sub \<in> set (positional_actions ?p). sub_ok pre sub" by simp
  from pbc_char[OF this, of "[]"] show ?case by (simp add: succeeds_def)
qed

lemma command_tree_succeeds: "command_tree p \<Longrightarrow> succeeds p pre"
  unfolding command_tree_def by (rule all_nodes_succeeds) simp_all

lemma command_tree_children:
  "command_tree p \<Longrightarrow> kc \<in> set (children p) \<Longrightarrow> command_tree (snd kc)"
  by (cases p) (auto simp: command_tree_def)

lemma command_tree_sub_ok:
  "command_tree p \<Longrightarrow> sub \<in> set (positional_actions p) \<Longrightarrow> sub_ok pre sub"
proof -
  assume ct: "command_tree p" and sub: "sub \<in> set (positional_actions p)"
  have a: "case choices sub of ChoicesMarkers cs \<Rightarrow> cs = [] | ChoicesStrs ss \<Rightarrow> ss = [] | _ \<Rightarrow> True"
    using ct sub by (cases p) (simp add: command_tree_def dispatches_def)
  have b: "succeeds (snd kc) (child_prefix pre (fst kc))" if "kc \<in> set (children_of sub)" for kc
  proof -
    from that sub have "kc \<in> set (children p)" by (auto simp: children_def)
    from command_tree_children[OF ct this] show ?thesis by (rule command_tree_succeeds)
  qed
  from a b show ?thesis unfolding sub_ok_def by blast
qed

lemma command_tree_char:
  assumes "command_tree p"
  shows "print_bash_commands p pre fd =
     (fd @ (if pre = ROOT_PREFIX then [] else [Options pre (strs (visible_opts p))])
         @ concat (map (\<lambda>kc. out (snd kc) (child_prefix pre (fst kc))) (children p))
         @ print_strategy pre (classify (completable_dests p)) [],
      Inr (map fst (children p)))"
  using command_tree_sub_ok[OF assms] by (intro pbc_char) blast

lemma sorted_children_of: "sorted (map fst (children_of sub))"
proof (cases "choices sub")
  case (ChoicesDict kvs)
  then show ?thesis by (simp add: children_of_dict comp_def)
qed (simp_all add: children_of_def)

section \<open>Order of emission\<close>

text \<open>
  Claim C1. On every command tree the traversal returns, and what it prints is, in this
  order: the options line of the node unless the node is the root (its prefix is
  \<open>ROOT_PREFIX\<close>); then, positional after positional, everything the traversal of each child
  prints, the children of one positional in sorted order of their names; and last the
  strategy line of the node, if it has one.
\<close>

theorem emission_order:
  assumes "command_tree p"
  shows "print_bash_commands p prefix' fd =
     (fd @ (if prefix' = ROOT_PREFIX then [] else [Options prefix' (strs (visible_opts p))])
         @ concat (map (\<lambda>kc. fst (print_bash_commands (snd kc) (child_prefix prefix' (fst kc)) []))
                       (children p))
         @ print_strategy prefix' (classify (completable_dests p)) [],
      Inr (map fst (children p)))
   \<and> (\<forall>sub \<in> set (positional_actions p). sorted (map fst (children_of sub)))"
  using command_tree_char[OF assms, of prefix' fd] sorted_children_of
  by (simp add: out_def)

lemma command_tree_scenario_A: "command_tree scenario_A"
  by (simp add: command_tree_def scenario_A_def dispatches_def children_def children_of_def)

theorem emission_order_witness:
  "command_tree scenario_A \<and>
   print_bash_commands scenario_A ROOT_PREFIX [] =
     (concat (map (\<lambda>kc. fst (print_bash_commands (snd kc) (child_prefix ROOT_PREFIX (fst kc)) []))
                  (children scenario_A))
      @ print_strategy ROOT_PREFIX (classify (completable_dests scenario_A)) [],
      Inr (map fst (children scenario_A)))"
  using emission_order[OF command_tree_scenario_A, of ROOT_PREFIX "[]"] command_tree_scenario_A
  by simp

section \<open>The classifier\<close>

lemma targets_completable: "\<not> uncompletable ''targets''"
  by code_simp

lemma classify_targets: "''targets'' \<in> set ds \<Longrightarrow> classify ds = PROJECT_FILE"
  by (auto simp: classify_def)

text \<open>
  Claim C3. Classifying a list of names gives exactly one of \<open>NONE\<close>, \<open>GENERIC_PATH\<close> and
  \<open>PROJECT_FILE\<close>, and a list that holds \<open>targets\<close> gives \<open>PROJECT_FILE\<close> whatever else it
  holds. So a node with a plain positional named \<open>targets\<close> is classified \<open>PROJECT_FILE\<close>,
  and the traversal of such a command tree ends with the line that names the project-file
  completer.
\<close>

theorem classifier_total:
  "(\<exists>!s. s \<in> {NONE, GENERIC_PATH, PROJECT_FILE} \<and> classify ds = s)
   \<and> (''targets'' \<in> set ds \<longrightarrow> classify ds = PROJECT_FILE)
   \<and> ((\<exists>sub \<in> set (positional_actions p). \<not> truthy (choices sub) \<and> dest sub = ''targets'')
        \<longrightarrow> classify (completable_dests p) = PROJECT_FILE
          \<and> (command_tree p \<longrightarrow>
               (\<exists>ls. fst (print_bash_commands p prefix' fd)
                        = ls @ [Compgen prefix' ''_dvc_compgen_DVCFiles''])))"
proof (intro conjI impI)
  show "\<exists>!s. s \<in> {NONE, GENERIC_PATH, PROJECT_FILE} \<and> classify ds = s"
    by (cases "classify ds") auto
  show "''targets'' \<in> set ds \<Longrightarrow> classify ds = PROJECT_FILE"
    by (rule classify_targets)
  assume "\<exists>sub \<in> set (positional_actions p). \<not> truthy (choices sub) \<and> dest sub = ''targets''"
  then have "''targets'' \<in> set (completable_dests p)"
    using targets_completable by (force simp: completable_dests_def)
  then show c: "classify (completable_dests p) = PROJECT_FILE"
    by (rule classify_targets)
  assume "command_tree p"
  from command_tree_char[OF this, of prefix' fd] c
  show "\<exists>ls. fst (print_bash_commands p prefix' fd) = ls @ [Compgen prefix' ''_dvc_compgen_DVCFiles'']"
    by (simp del: append_assoc add: append_assoc[symmetric])
qed

theorem classifier_total_witness:
  "''targets'' \<in> set [''file'', ''targets''] \<and> classify [''file'', ''targets''] = PROJECT_FILE
   \<and> (\<exists>sub \<in> set (positional_actions targets_node).
          \<not> truthy (choices sub) \<and> dest sub = ''targets'')
   \<and> command_tree targets_node
   \<and> classify (completable_dests targets_node) = PROJECT_FILE
   \<and> (\<exists>ls. fst (print_bash_commands targets_node ''_dvc_add'' [])
               = ls @ [Compgen ''_dvc_add'' ''_dvc_compgen_DVCFiles''])"
proof -
  have a: "''targets'' \<in> set [''file'', ''targets'']" by simp
  have b: "\<exists>sub \<in> set (positional_actions targets_node).
          \<not> truthy (choices sub) \<and> dest sub = ''targets''"
    by (simp add: targets_node_def)
  have c: "command_tree targets_node" by code_simp
  from classifier_total[of "[''file'', ''targets'']" targets_node "''_dvc_add''" "[]"] a b c
  show ?thesis by blast
qed

section \<open>Scenario A\<close>

text \<open>
  Claim C5. For the root with the one subcommand \<open>add\<close>, with option strings \<open>-f\<close> and
  \<open>--force\<close> and one plain positional named \<open>target\<close>, the traversal prints the options
  line of \<open>add\<close> with the value \<open>-f --force\<close> and the strategy line of \<open>add\<close> naming the
  project-file completer, and the script returned by \<open>complete\<close> holds both lines.
\<close>

theorem scenario_A_output:
  "print_bash_commands scenario_A ROOT_PREFIX [] =
     ([Options ''_dvc_add'' [''-f'', ''--force''],
       Compgen ''_dvc_add'' ''_dvc_compgen_DVCFiles''], Inr [''add''])
   \<and> getvalue [Options ''_dvc_add'' [''-f'', ''--force''],
                Compgen ''_dvc_add'' ''_dvc_compgen_DVCFiles'']
       = ''_dvc_add='-f --force'\<newline>_dvc_add_COMPGEN=_dvc_compgen_DVCFiles\<newline>''
   \<and> snd (complete scenario_A ''bash'') =
       Inr (SCRIPT_HEADER @ ''add'' @ SCRIPT_OPTIONS @ ''-h --help -q --quiet -v --verbose''
            @ SCRIPT_DEFINITIONS
            @ ''_dvc_add='-f --force'\<newline>_dvc_add_COMPGEN=_dvc_compgen_DVCFiles\<newline>''
            @ SCRIPT_FUNCTIONS @ ''\<newline>'')"
proof -
  have w: "print_bash_commands scenario_A ROOT_PREFIX [] =
     ([Options ''_dvc_add'' [''-f'', ''--force''],
       Compgen ''_dvc_add'' ''_dvc_compgen_DVCFiles''], Inr [''add''])"
    by code_simp
  have g: "getvalue [Options ''_dvc_add'' [''-f'', ''--force''],
                Compgen ''_dvc_add'' ''_dvc_compgen_DVCFiles'']
       = ''_dvc_add='-f --force'\<newline>_dvc_add_COMPGEN=_dvc_compgen_DVCFiles\<newline>''"
    by (simp add: getvalue_def)
  have j: "join '' '' GLOBAL_OPTIONS = ''-h --help -q --quiet -v --verbose''"
    by (simp add: GLOBAL_OPTIONS_def)
  show ?thesis
    unfolding complete_def print_bash_def w by (simp add: g j)
qed

section \<open>Unsupported shells\<close>

text \<open>
  Claim C9. For every parser, \<open>complete\<close> called with a shell other than \<open>bash\<close> raises
  \<open>NotImplementedError\<close>, and its sink holds nothing when it does.
\<close>

theorem unsupported_shell:
  "shell \<noteq> ''bash'' \<Longrightarrow> complete p shell = ([], Inl NotImplementedError)"
  by (simp add: complete_def)

theorem unsupported_shell_witness:
  "''zsh'' \<noteq> ''bash'' \<and> complete scenario_A ''zsh'' = ([], Inl NotImplementedError)"
  using unsupported_shell[of "''zsh''" scenario_A] by simp

section \<open>\<open>Choice\<close> markers\<close>

lemma for_sub_markers:
  assumes "sub \<in> set subs" "choices sub = ChoicesMarkers cs" "cs \<noteq> []"
  shows "\<exists>fd1 e. for_sub subs prefix' commands dest' fd = (fd1, Inl e)"
  using assms(1)
proof (induction subs arbitrary: commands dest' fd)
  case Nil
  then show ?case by simp
next
  case (Cons a subs)
  show ?case
  proof (cases "a = sub")
    case True
    with assms(2,3) show ?thesis by simp
  next
    case False
    with Cons have IH: "\<And>commands dest' fd. \<exists>fd1 e. for_sub subs prefix' commands dest' fd = (fd1, Inl e)"
      by simp
    show ?thesis
    proof (cases "choices a")
      case (ChoicesDict kvs)
      show ?thesis
      proof (cases "for_cmd kvs (sort (map fst kvs)) prefix' commands fd")
        case (Pair fd1 r)
        with ChoicesDict IH show ?thesis by (cases r) auto
      qed
    qed (use IH in auto)
  qed
qed

text \<open>
  Claim C10. A parser with a positional whose \<open>choices\<close> is a non-empty list of \<open>Choice\<close>
  markers, such as \<open>Optional.FILE\<close>, makes the traversal raise: it ends in an exception
  and returns no list of commands. On the parser with the single positional
  \<open>choices=Optional.FILE\<close> the exception is \<open>TypeError\<close>, nothing is printed, and
  \<open>complete\<close> raises it too.
\<close>

theorem choice_markers_raise:
  assumes "sub \<in> set (positional_actions p)" "choices sub = ChoicesMarkers cs" "cs \<noteq> []"
  shows "\<exists>fd1 e. print_bash_commands p prefix' fd = (fd1, Inl e)"
proof -
  obtain fd0 where "(if prefix' = ROOT_PREFIX then (fd, Inr ()) else print_opts p prefix' fd)
      = (fd0, Inr ())"
    by (cases "prefix' = ROOT_PREFIX") (simp_all add: print_opts_eq)
  moreover from for_sub_markers[OF assms] obtain fd1 e
    where "for_sub (positional_actions p) prefix' [] [] fd0 = (fd1, Inl e)" by blast
  ultimately show ?thesis by (simp add: print_bash_commands.simps[of p])
qed

theorem choice_markers_raise_witness:
  "Positional ''path'' (ChoicesMarkers Optional_FILE) \<in> set (positional_actions file_argument)
   \<and> Optional_FILE \<noteq> []
   \<and> (\<exists>fd1 e. print_bash_commands file_argument ROOT_PREFIX [] = (fd1, Inl e))
   \<and> print_bash_commands file_argument ROOT_PREFIX [] = ([], Inl TypeError)
   \<and> complete file_argument ''bash'' = ([], Inl TypeError)"
proof -
  have a: "Positional ''path'' (ChoicesMarkers Optional_FILE) \<in> set (positional_actions file_argument)"
    by (simp add: file_argument_def)
  have b: "choices (Positional ''path'' (ChoicesMarkers Optional_FILE)) = ChoicesMarkers Optional_FILE"
    by simp
  have c: "Optional_FILE \<noteq> []" by (simp add: Optional_FILE_def)
  have d: "print_bash_commands file_argument ROOT_PREFIX [] = ([], Inl TypeError)"
    by code_simp
  have e: "complete file_argument ''bash'' = ([], Inl TypeError)"
    by (simp add: complete_def print_bash_def d)
  from choice_markers_raise[OF a b c, of ROOT_PREFIX "[]"] a c d e show ?thesis by blast
qed

section \<open>Determinism\<close>

text \<open>
  Claim C8. Generation is a function of the parser alone. The traversal appends to its
  sink, and returns, the same whatever the sink held before; \<open>print_bash\<close> appends one and
  the same text to every sink; and \<open>complete\<close> returns that text. Two runs on one parser
  therefore yield the same bytes.
\<close>

theorem generation_deterministic:
  "(\<forall>fd. print_bash_commands p prefix' fd =
           (fd @ fst (print_bash_commands p prefix' []), snd (print_bash_commands p prefix' [])))
   \<and> (\<exists>txt r. (\<forall>fd. print_bash p fd = (fd @ txt, r))
         \<and> complete p ''bash'' = (txt, case r of Inl e \<Rightarrow> Inl e | Inr u \<Rightarrow> Inr txt))"
proof
  show "\<forall>fd. print_bash_commands p prefix' fd =
           (fd @ fst (print_bash_commands p prefix' []), snd (print_bash_commands p prefix' []))"
    using frame_nil by blast
  show "\<exists>txt r. (\<forall>fd. print_bash p fd = (fd @ txt, r))
         \<and> complete p ''bash'' = (txt, case r of Inl e \<Rightarrow> Inl e | Inr u \<Rightarrow> Inr txt)"
  proof (cases "print_bash_commands p ROOT_PREFIX []")
    case (Pair bash r)
    show ?thesis
    proof (cases r)
      case (Inl e)
      with Pair have "(\<forall>fd. print_bash p fd = (fd @ [], Inl e))
          \<and> complete p ''bash'' = ([], case Inl e of Inl e \<Rightarrow> Inl e | Inr u \<Rightarrow> Inr [])"
        by (simp add: print_bash_def complete_def)
      then show ?thesis by blast
    next
      case (Inr commands)
      let ?txt = "SCRIPT_HEADER @ join '' '' commands @ SCRIPT_OPTIONS
              @ join '' '' GLOBAL_OPTIONS @ SCRIPT_DEFINITIONS @ getvalue bash
              @ SCRIPT_FUNCTIONS @ ''\<newline>''"
      from Inr Pair have "(\<forall>fd. print_bash p fd = (fd @ ?txt, Inr ()))
          \<and> complete p ''bash'' = (?txt, case Inr () of Inl e \<Rightarrow> Inl e | Inr u \<Rightarrow> Inr ?txt)"
        by (simp add: print_bash_def complete_def)
      then show ?thesis by blast
    qed
  qed
qed

section \<open>Invariants of the printed lines\<close>

lemma lines_invariant:
  assumes own_opts: "\<And>q pre. Q pre (Options pre (strs (visible_opts q)))"
    and own_strategy: "\<And>pre f. Q pre (Compgen pre f)"
    and up: "\<And>pre cmd l. Q (child_prefix pre cmd) l \<Longrightarrow> Q pre l"
  shows "\<forall>l \<in> set (fst (print_bash_commands p pre fd)). l \<in> set fd \<or> Q pre l"
    and "\<forall>l \<in> set (fst (for_sub subs pre1 commands1 dest1 fd1)).
           l \<in> set fd1 \<or> (\<exists>cmd. Q (child_prefix pre1 cmd) l)"
    and "\<forall>l \<in> set (fst (for_cmd kvs cmds pre2 commands2 fd2)).
           l \<in> set fd2 \<or> (\<exists>cmd. Q (child_prefix pre2 cmd) l)"
proof (induct p pre fd and subs pre1 commands1 dest1 fd1 and kvs cmds pre2 commands2 fd2
        rule: print_bash_commands_for_sub_for_cmd.induct)
  case (1 parser prefix' fd)
  obtain fd1 where fd1: "(if prefix' = ROOT_PREFIX then (fd, Inr ()) else print_opts parser prefix' fd)
      = (fd1, Inr ())" and l1: "\<forall>l \<in> set fd1. l \<in> set fd \<or> Q prefix' l"
    using own_opts by (cases "prefix' = ROOT_PREFIX") (auto simp: print_opts_eq)
  obtain fd2 r where fs: "for_sub (positional_actions parser) prefix' [] [] fd1 = (fd2, r)"
    by (cases "for_sub (positional_actions parser) prefix' [] [] fd1")
  from 1[OF fd1[symmetric] refl] fs up
  have l2: "\<forall>l \<in> set fd2. l \<in> set fd1 \<or> Q prefix' l" by auto
  have l3: "\<forall>l \<in> set (print_strategy prefix' s fd2). l \<in> set fd2 \<or> Q prefix' l" for s
    using own_strategy by (cases s) auto
  from fd1 fs l1 l2 l3 show ?case
    by (cases r) (simp_all add: print_bash_commands.simps[of parser] split: prod.splits, blast+)
next
  case (2 prefix' commands dest' fd)
  then show ?case by simp
next
  case (3 sub subs prefix' commands dest' fd)
  show ?case
  proof (cases "choices sub")
    case (ChoicesDict kvs)
    show ?thesis
    proof (cases "for_cmd kvs (sort (map fst kvs)) prefix' commands fd")
      case (Pair x y)
      with ChoicesDict 3(2)[of kvs] 3(3)[of kvs x y] 3(4) 3(5) show ?thesis
        by (cases y; cases "kvs = []") (auto split: prod.splits sum.splits)
    qed
  qed (use 3 in auto)
next
  case (4 kvs prefix' commands fd)
  then show ?case by simp
next
  case (5 kvs cmd cmds prefix' commands fd)
  show ?case
  proof (cases "map_of kvs cmd")
    case None
    then show ?thesis by simp
  next
    case (Some child)
    show ?thesis
    proof (cases "print_bash_commands child (child_prefix prefix' cmd) fd")
      case (Pair x y)
      with Some 5(1)[of child] 5(2)[of child x y] show ?thesis
        by (cases y) (auto split: prod.splits sum.splits)
    qed
  qed
qed

section \<open>Option filtering\<close>

lemma strs_subset: "s \<in> set (strs is) \<Longrightarrow> Str s \<in> set is"
  by (induction "is" rule: strs.induct) auto

lemma visible_not_global: "s \<in> set (strs (visible_opts q)) \<Longrightarrow> s \<notin> set GLOBAL_OPTIONS"
  by (auto dest!: strs_subset simp: visible_opts_def)

text \<open>
  Claim C6. For every parser and every prefix, no options line that the traversal prints
  holds a string of \<open>GLOBAL_OPTIONS\<close>.
\<close>

theorem option_filtering:
  "Options i ss \<in> set (fst (print_bash_commands p prefix' [])) \<Longrightarrow>
     set ss \<inter> set GLOBAL_OPTIONS = {}"
proof -
  let ?Q = "\<lambda>(pre :: string) l. \<forall>j ts. l = Options j ts \<longrightarrow> set ts \<inter> set GLOBAL_OPTIONS = {}"
  have "\<forall>l \<in> set (fst (print_bash_commands p prefix' [])). l \<in> set [] \<or> ?Q prefix' l"
    by (rule lines_invariant(1)[where Q = ?Q]) (auto dest: visible_not_global)
  moreover assume "Options i ss \<in> set (fst (print_bash_commands p prefix' []))"
  ultimately show ?thesis by auto
qed

theorem option_filtering_witness:
  "Options ''_dvc_add'' [''-f'', ''--force''] \<in> set (fst (print_bash_commands help_node ''_dvc_add'' []))
   \<and> set [''-f'', ''--force''] \<inter> set GLOBAL_OPTIONS = {}"
proof -
  have "Options ''_dvc_add'' [''-f'', ''--force'']
      \<in> set (fst (print_bash_commands help_node ''_dvc_add'' []))"
    by code_simp
  with option_filtering[of "''_dvc_add''" "[''-f'', ''--force'']" help_node "''_dvc_add''"]
  show ?thesis by blast
qed

section \<open>The denylist\<close>

lemma extends_self: "extends pre pre"
  by (simp add: extends_def)

lemma extends_child: "extends (child_prefix pre cmd) i \<Longrightarrow> extends pre i"
  by (auto simp: extends_def child_prefix_def)

lemma extends_child_neq: "extends (child_prefix pre cmd) i \<Longrightarrow> i \<noteq> pre"
  by (auto simp: extends_def child_prefix_def)


lemma lines_extend_sub:
  "\<forall>l \<in> set (fst (for_sub subs pre commands dest' fd)).
     l \<in> set fd \<or> (\<exists>cmd. extends (child_prefix pre cmd) (ident l))"
  by (rule lines_invariant(2)[where Q = "\<lambda>pre l. extends pre (ident l)"])
     (auto intro: extends_self extends_child)

lemma for_sub_dest:
  "for_sub subs prefix' commands dest' fd = (fd1, Inr (commands1, dest1)) \<Longrightarrow>
     dest1 = dest' @ map dest (filter (\<lambda>sub. \<not> truthy (choices sub) \<and> \<not> uncompletable (dest sub)) subs)"
proof (induction subs arbitrary: commands dest' fd)
  case Nil
  then show ?case by simp
next
  case (Cons sub subs)
  show ?case
  proof (cases "choices sub")
    case (ChoicesDict kvs)
    show ?thesis
    proof (cases "for_cmd kvs (sort (map fst kvs)) prefix' commands fd")
      case (Pair x y)
      with ChoicesDict Cons.prems show ?thesis
        by (cases y; cases "kvs = []") (auto split: if_splits dest!: Cons.IH)
    qed
  qed (use Cons.prems in \<open>auto split: if_splits dest!: Cons.IH\<close>)
qed

text \<open>
  Claim C4. A name is uncompletable exactly when an entry of the denylist occurs in it as
  a substring, character for character. The loop over the positionals appends to \<open>dest\<close>
  the names of the plain positionals that are not uncompletable, and no other. When every
  plain positional of a node is uncompletable, as for a node whose only positional is
  \<open>url\<close>, the traversal of the node prints no strategy line for it.
\<close>

theorem denylist:
  "(uncompletable d \<longleftrightarrow> (\<exists>i \<in> UNCOMPLETABLE_POSITIONALS. \<exists>a b. d = a @ i @ b))
   \<and> (for_sub subs prefix' commands dest' fd = (fd1, Inr (commands1, dest1)) \<longrightarrow>
        dest1 = dest' @ map dest (filter (\<lambda>sub. \<not> truthy (choices sub)
                                                 \<and> \<not> uncompletable (dest sub)) subs))
   \<and> ((\<forall>sub \<in> set (positional_actions p). \<not> truthy (choices sub) \<longrightarrow> uncompletable (dest sub))
        \<longrightarrow> (\<forall>f. Compgen prefix' f \<notin> set (fst (print_bash_commands p prefix' []))))"
proof (intro conjI impI allI)
  show "uncompletable d \<longleftrightarrow> (\<exists>i \<in> UNCOMPLETABLE_POSITIONALS. \<exists>a b. d = a @ i @ b)"
    by (simp add: uncompletable_def sublist_def)
  show "dest1 = dest' @ map dest (filter (\<lambda>sub. \<not> truthy (choices sub)
                                                 \<and> \<not> uncompletable (dest sub)) subs)"
    if "for_sub subs prefix' commands dest' fd = (fd1, Inr (commands1, dest1))"
    using that by (rule for_sub_dest)
  fix f
  assume all: "\<forall>sub \<in> set (positional_actions p). \<not> truthy (choices sub) \<longrightarrow> uncompletable (dest sub)"
  obtain fd0 where fd0: "(if prefix' = ROOT_PREFIX then ([], Inr ()) else print_opts p prefix' [])
      = (fd0, Inr ())" and l0: "Compgen prefix' f \<notin> set fd0"
    by (cases "prefix' = ROOT_PREFIX") (auto simp: print_opts_eq)
  obtain fd2 r where fs: "for_sub (positional_actions p) prefix' [] [] fd0 = (fd2, r)"
    by (cases "for_sub (positional_actions p) prefix' [] [] fd0")
  from lines_extend_sub[of "positional_actions p" prefix' "[]" "[]" fd0] fs l0
  have l2: "Compgen prefix' f \<notin> set fd2"
    using extends_child_neq by fastforce
  show "Compgen prefix' f \<notin> set (fst (print_bash_commands p prefix' []))"
  proof (cases r)
    case (Inl e)
    with fd0 fs l2 show ?thesis by (simp add: print_bash_commands.simps[of p])
  next
    case (Inr cd)
    obtain c d where cd: "cd = (c, d)" by (cases cd)
    with Inr fs for_sub_dest[of "positional_actions p" prefix' "[]" "[]" fd0 fd2 c d] all
    have "d = []" by (auto simp: filter_empty_conv)
    with Inr cd fd0 fs l2 show ?thesis
      by (simp add: print_bash_commands.simps[of p] classify_def)
  qed
qed

theorem denylist_witness:
  "uncompletable ''url'' \<and> uncompletable ''base_url'' \<and> \<not> uncompletable ''URL''
   \<and> positional_actions url_node = [Positional ''url'' ChoicesNone]
   \<and> print_bash_commands url_node ''_dvc_get_url'' [] = ([Options ''_dvc_get_url'' [''-o'', ''--out'']], Inr [])
   \<and> (\<forall>f. Compgen ''_dvc_get_url'' f \<notin> set (fst (print_bash_commands url_node ''_dvc_get_url'' [])))"
proof -
  have a: "uncompletable ''url''" "uncompletable ''base_url''" "\<not> uncompletable ''URL''"
    by code_simp+
  have b: "\<forall>sub \<in> set (positional_actions url_node). \<not> truthy (choices sub) \<longrightarrow> uncompletable (dest sub)"
    using a(1) by (simp add: url_node_def)
  have c: "print_bash_commands url_node ''_dvc_get_url'' [] = ([Options ''_dvc_get_url'' [''-o'', ''--out'']], Inr [])"
    by code_simp
  have d: "positional_actions url_node = [Positional ''url'' ChoicesNone]"
    by (simp add: url_node_def)
  from denylist[of "''url''" "[]" "''_dvc_get_url''" "[]" "[]" "[]" "[]" "[]" "[]" url_node] a b c d
  show ?thesis by blast
qed

section \<open>Uniqueness of identifiers\<close>

lemma all_nodes_here: "all_nodes P p \<Longrightarrow> P p"
  by (cases p) simp


lemma children_induct [case_names node]:
  assumes "\<And>p. (\<And>kc. kc \<in> set (children p) \<Longrightarrow> Q (snd kc)) \<Longrightarrow> Q p"
  shows "Q p"
proof (induction p rule: measure_induct_rule[where f = size])
  case (less p)
  show ?case
  proof (rule assms)
    fix kc assume "kc \<in> set (children p)"
    then have "size (snd kc) < size p" using children_size[of "fst kc" "snd kc" p] by simp
    then show "Q (snd kc)" by (rule less)
  qed
qed









section \<open>Reordering the entries of a mapping\<close>

lemma reordered_iff:
  "reordered p q \<longleftrightarrow>
     optional_actions p = optional_actions q
     \<and> list_all2 reordered_pos (positional_actions p) (positional_actions q)"
  by (cases p) (simp add: reordered_pos_def[abs_def])

lemma reordered_pos_dict:
  assumes "reordered_pos s t" "choices s = ChoicesDict kvs"
  obtains kvs' where "choices t = ChoicesDict kvs'" "same_keys kvs kvs'"
    "\<forall>k \<in> set (map fst kvs).
       \<exists>c c'. map_of kvs k = Some c \<and> map_of kvs' k = Some c' \<and> reordered c c'"
proof (cases "choices t")
  case (ChoicesDict kvs')
  have "\<exists>c c'. map_of kvs k = Some c \<and> map_of kvs' k = Some c' \<and> reordered c c'"
    if "k \<in> set (map fst kvs)" for k
  proof -
    from assms ChoicesDict that
    have "case map_of kvs k of
            Some c \<Rightarrow> (case map_of kvs' k of Some c' \<Rightarrow> reordered c c' | None \<Rightarrow> False)
          | None \<Rightarrow> False"
      unfolding reordered_pos_def by auto
    then show ?thesis by (simp split: option.splits)
  qed
  moreover from assms ChoicesDict have "same_keys kvs kvs'" by (simp add: reordered_pos_def)
  ultimately show ?thesis using that ChoicesDict by blast
qed (use assms in \<open>simp_all add: reordered_pos_def\<close>)

lemma same_keys_mset: "same_keys kvs kvs' \<Longrightarrow> mset (map fst kvs) = mset (map fst kvs')"
  unfolding same_keys_def
  using set_eq_iff_mset_eq_distinct[of "map fst kvs" "map fst kvs'"] by blast

lemma reordered_pos_truthy: "reordered_pos s t \<Longrightarrow> truthy (choices s) = truthy (choices t)"
  by (cases "choices s"; cases "choices t") (auto simp: reordered_pos_def same_keys_def)

lemma reordered_pos_iterate: "reordered_pos s t \<Longrightarrow> mset (iterate (choices s)) = mset (iterate (choices t))"
proof (cases "choices s")
  case (ChoicesDict kvs)
  assume "reordered_pos s t"
  from reordered_pos_dict[OF this ChoicesDict] obtain kvs'
    where t: "choices t = ChoicesDict kvs'" and sk: "same_keys kvs kvs'" by blast
  have "mset (map Str (map fst kvs)) = mset (map Str (map fst kvs'))"
    using same_keys_mset[OF sk] by (simp only: mset_map)
  with ChoicesDict t show ?thesis by (simp add: comp_def)
qed (auto simp: reordered_pos_def)

lemma reordered_pos_children:
  assumes "reordered_pos s t"
  shows "list_all2 (\<lambda>kc kc'. fst kc = fst kc' \<and> reordered (snd kc) (snd kc'))
           (children_of s) (children_of t)"
proof (cases "choices s")
  case (ChoicesDict kvs)
  from reordered_pos_dict[OF assms ChoicesDict] obtain kvs'
    where t: "choices t = ChoicesDict kvs'" and sk: "same_keys kvs kvs'"
    and ch: "\<forall>k \<in> set (map fst kvs).
               \<exists>c c'. map_of kvs k = Some c \<and> map_of kvs' k = Some c' \<and> reordered c c'"
    by blast
  have "sort (map fst kvs') = sort (map fst kvs)"
    using same_keys_mset[OF sk] by (metis mset_sort properties_for_sort sorted_sort)
  with ch show ?thesis
    by (force simp: children_of_dict[OF ChoicesDict] children_of_dict[OF t]
          list_all2_map1 list_all2_map2 list_all2_same)
next
  case ChoicesNone
  with assms show ?thesis by (simp add: reordered_pos_def children_of_def)
next
  case (ChoicesMarkers cs)
  with assms show ?thesis by (simp add: reordered_pos_def children_of_def)
next
  case (ChoicesStrs ss)
  with assms show ?thesis by (simp add: reordered_pos_def children_of_def)
qed

lemma list_all2_concat:
  "list_all2 (list_all2 R) xss yss \<Longrightarrow> list_all2 R (concat xss) (concat yss)"
  by (induction rule: list_all2_induct) (auto intro: list_all2_appendI)

lemma reordered_children:
  assumes "reordered p q"
  shows "list_all2 (\<lambda>kc kc'. fst kc = fst kc' \<and> reordered (snd kc) (snd kc'))
           (children p) (children q)"
proof -
  from assms have "list_all2 reordered_pos (positional_actions p) (positional_actions q)"
    by (simp add: reordered_iff)
  then have "list_all2 (list_all2 (\<lambda>kc kc'. fst kc = fst kc' \<and> reordered (snd kc) (snd kc')))
      (map children_of (positional_actions p)) (map children_of (positional_actions q))"
    by (simp add: list_all2_map1 list_all2_map2 list.rel_mono_strong reordered_pos_children)
  then show ?thesis unfolding children_def by (rule list_all2_concat)
qed

lemma reordered_dests:
  assumes "reordered p q"
  shows "completable_dests p = completable_dests q"
proof -
  from assms have "list_all2 reordered_pos (positional_actions p) (positional_actions q)"
    by (simp add: reordered_iff)
  then show ?thesis unfolding completable_dests_def
    by (induction rule: list_all2_induct) (auto simp: reordered_pos_truthy, auto simp: reordered_pos_def)
qed

lemma mset_strs:
  "mset (strs xs) = (\<Sum>i \<in># mset xs. mset (case i of Str s \<Rightarrow> [s] | Mark c \<Rightarrow> []))"
  by (induction xs rule: strs.induct) simp_all

lemma reordered_opts:
  assumes "reordered p q"
  shows "mset (strs (visible_opts p)) = mset (strs (visible_opts q))"
proof -
  from assms have "list_all2 reordered_pos (positional_actions p) (positional_actions q)"
    and o: "optional_actions p = optional_actions q"
    by (simp_all add: reordered_iff)
  then have "mset (concat (map (\<lambda>sub. iterate (choices sub))
               (filter (\<lambda>sub. truthy (choices sub)) (positional_actions p))))
      = mset (concat (map (\<lambda>sub. iterate (choices sub))
               (filter (\<lambda>sub. truthy (choices sub)) (positional_actions q))))"
    by (induction rule: list_all2_induct) (auto simp: reordered_pos_truthy reordered_pos_iterate)
  with o have "mset (all_opts p) = mset (all_opts q)"
    by (simp add: all_opts_def)
  then have "mset (visible_opts p) = mset (visible_opts q)"
    by (simp add: visible_opts_def)
  then show ?thesis by (simp add: mset_strs)
qed

lemma same_line_refl: "same_line l l"
  by (cases l) simp_all

lemma list_all2_setD2: "list_all2 R xs ys \<Longrightarrow> y \<in> set ys \<Longrightarrow> \<exists>x \<in> set xs. R x y"
  by (induction rule: list_all2_induct) auto

lemma reordered_command_tree:
  "reordered p q \<Longrightarrow> command_tree p \<Longrightarrow> command_tree q"
proof (induction p arbitrary: q rule: children_induct)
  case (node p)
  from node.prems(1) have ps: "list_all2 reordered_pos (positional_actions p) (positional_actions q)"
    by (simp add: reordered_iff)
  have d: "dispatches q"
    unfolding dispatches_def
  proof
    fix t assume "t \<in> set (positional_actions q)"
    with ps obtain s where s: "s \<in> set (positional_actions p)" and r: "reordered_pos s t"
      by (blast dest: list_all2_setD2)
    from node.prems(2) s
    have "case choices s of ChoicesMarkers cs \<Rightarrow> cs = [] | ChoicesStrs ss \<Rightarrow> ss = [] | _ \<Rightarrow> True"
      using all_nodes_here[of dispatches p] by (simp add: command_tree_def dispatches_def)
    with r show "case choices t of ChoicesMarkers cs \<Rightarrow> cs = [] | ChoicesStrs ss \<Rightarrow> ss = [] | _ \<Rightarrow> True"
      by (cases "choices s") (auto simp: reordered_pos_def split: choices.splits)
  qed
  have c: "command_tree (snd kc')" if "kc' \<in> set (children q)" for kc'
  proof -
    from reordered_children[OF node.prems(1)] that
    obtain kc where kc: "kc \<in> set (children p)" and r: "reordered (snd kc) (snd kc')"
      by (blast dest: list_all2_setD2)
    from node.IH[OF kc r] command_tree_children[OF node.prems(2) kc] show ?thesis .
  qed
  from d c show ?case by (cases q) (simp add: command_tree_def)
qed

lemma reordered_out:
  "reordered p q \<Longrightarrow> command_tree p \<Longrightarrow> list_all2 same_line (out p pre) (out q pre)"
proof (induction p arbitrary: q pre rule: children_induct)
  case (node p)
  let ?G = "\<lambda>kc. out (snd kc) (child_prefix pre (fst kc))"
  have q: "command_tree q" using node.prems by (rule reordered_command_tree)
  have op: "out p pre = (if pre = ROOT_PREFIX then [] else [Options pre (strs (visible_opts p))])
       @ concat (map ?G (children p)) @ print_strategy pre (classify (completable_dests p)) []"
    using command_tree_char[OF node.prems(2), of pre "[]"] by (simp add: out_def)
  have oq: "out q pre = (if pre = ROOT_PREFIX then [] else [Options pre (strs (visible_opts q))])
       @ concat (map ?G (children q)) @ print_strategy pre (classify (completable_dests p)) []"
    using command_tree_char[OF q, of pre "[]"] reordered_dests[OF node.prems(1)]
    by (simp add: out_def)
  have a: "list_all2 same_line
      (if pre = ROOT_PREFIX then [] else [Options pre (strs (visible_opts p))])
      (if pre = ROOT_PREFIX then [] else [Options pre (strs (visible_opts q))])"
    using reordered_opts[OF node.prems(1)] by simp
  have "list_all2 (\<lambda>kc kc'. list_all2 same_line (?G kc) (?G kc')) (children p) (children q)"
    using reordered_children[OF node.prems(1)]
  proof (rule list.rel_mono_strong)
    fix kc kc'
    assume kc: "kc \<in> set (children p)" and "fst kc = fst kc' \<and> reordered (snd kc) (snd kc')"
    with node.IH[OF kc, of "snd kc'" "child_prefix pre (fst kc)"]
      command_tree_children[OF node.prems(2) kc]
    show "list_all2 same_line (?G kc) (?G kc')" by simp
  qed
  then have b: "list_all2 same_line (concat (map ?G (children p))) (concat (map ?G (children q)))"
    by (intro list_all2_concat) (simp add: list_all2_map1 list_all2_map2)
  have c: "list_all2 same_line (print_strategy pre (classify (completable_dests p)) [])
      (print_strategy pre (classify (completable_dests p)) [])"
    by (simp add: list_all2_same same_line_refl)
  show ?case unfolding op oq
    by (intro list_all2_appendI a b c)
qed

text \<open>
  Claim C7, as amended. When two command trees differ only in the insertion order of the
  entries of their mappings (\<open>reordered\<close>: the same keys, each with children that are
  reordered in turn), the traversal returns the same list of commands on both and prints
  the same lines in the same order, up to the order of the words within an options line:
  every line has the same identifier, an options line holds the same strings with the same
  multiplicities, and a strategy line names the same completer.
\<close>

theorem reorder_invariance:
  assumes "reordered p q" "command_tree p"
  shows "list_all2 same_line (fst (print_bash_commands p prefix' []))
           (fst (print_bash_commands q prefix' []))
       \<and> snd (print_bash_commands p prefix' []) = snd (print_bash_commands q prefix' [])"
proof -
  have q: "command_tree q" using assms by (rule reordered_command_tree)
  have "map fst (children p) = map fst (children q)"
    using reordered_children[OF assms(1)]
    by (induction rule: list_all2_induct) auto
  with command_tree_char[OF assms(2), of prefix' "[]"] command_tree_char[OF q, of prefix' "[]"]
    reordered_out[OF assms, of prefix']
  show ?thesis by (simp add: out_def)
qed

lemma reordered_remote: "reordered remote_tree remote_tree_reordered"
  by (simp add: remote_tree_def remote_tree_reordered_def same_keys_def insert_commute)

theorem reorder_invariance_witness:
  "reordered remote_tree remote_tree_reordered \<and> command_tree remote_tree
   \<and> list_all2 same_line (fst (print_bash_commands remote_tree ROOT_PREFIX []))
        (fst (print_bash_commands remote_tree_reordered ROOT_PREFIX []))
   \<and> snd (print_bash_commands remote_tree ROOT_PREFIX [])
       = snd (print_bash_commands remote_tree_reordered ROOT_PREFIX [])"
proof -
  have c: "command_tree remote_tree" by code_simp
  from reorder_invariance[OF reordered_remote c, of ROOT_PREFIX] reordered_remote c
  show ?thesis by blast
qed

text \<open>
  Claim C7 as stated fails. A node that is not the root lists the keys of its mapping on its
  options line in insertion order: with \<open>add\<close> and \<open>remove\<close> exchanged under \<open>remote\<close>
  the line \<open>_dvc_remote='add remove'\<close> becomes \<open>_dvc_remote='remove add'\<close>, and the two
  scripts differ.
\<close>

theorem reorder_changes_output:
  "reordered remote_tree remote_tree_reordered
   \<and> command_tree remote_tree \<and> command_tree remote_tree_reordered
   \<and> fst (print_bash_commands remote_tree ROOT_PREFIX []) =
       [Options ''_dvc_add'' [''-f'', ''--force''],
        Compgen ''_dvc_add'' ''_dvc_compgen_DVCFiles'',
        Options ''_dvc_remote'' [''add'', ''remove''],
        Options ''_dvc_remote_add'' [], Options ''_dvc_remote_remove'' []]
   \<and> fst (print_bash_commands remote_tree_reordered ROOT_PREFIX []) =
       [Options ''_dvc_add'' [''-f'', ''--force''],
        Compgen ''_dvc_add'' ''_dvc_compgen_DVCFiles'',
        Options ''_dvc_remote'' [''remove'', ''add''],
        Options ''_dvc_remote_add'' [], Options ''_dvc_remote_remove'' []]
   \<and> snd (complete remote_tree ''bash'') \<noteq> snd (complete remote_tree_reordered ''bash'')"
proof -
  let ?l1 = "[Options ''_dvc_add'' [''-f'', ''--force''],
        Compgen ''_dvc_add'' ''_dvc_compgen_DVCFiles'',
        Options ''_dvc_remote'' [''add'', ''remove''],
        Options ''_dvc_remote_add'' [], Options ''_dvc_remote_remove'' []]"
  let ?l2 = "[Options ''_dvc_add'' [''-f'', ''--force''],
        Compgen ''_dvc_add'' ''_dvc_compgen_DVCFiles'',
        Options ''_dvc_remote'' [''remove'', ''add''],
        Options ''_dvc_remote_add'' [], Options ''_dvc_remote_remove'' []]"
  have a: "command_tree remote_tree" by code_simp
  have b: "command_tree remote_tree_reordered" by code_simp
  have c: "print_bash_commands remote_tree ROOT_PREFIX [] = (?l1, Inr [''add'', ''remote''])"
    by code_simp
  have d: "print_bash_commands remote_tree_reordered ROOT_PREFIX [] = (?l2, Inr [''add'', ''remote''])"
    by code_simp
  have g: "getvalue ?l1 \<noteq> getvalue ?l2"
    by (simp add: getvalue_def)
  have e: "snd (complete remote_tree ''bash'') \<noteq> snd (complete remote_tree_reordered ''bash'')"
    unfolding complete_def print_bash_def c d using g by simp
  from reordered_remote a b c d e show ?thesis by simp
qed

end
